theory Spec2Isabelle
  imports Complex_Main "HOL-Library.Log_Nat" "HOL-Library.Monad_Syntax"
begin

section \<open>Dates and times\<close>

text \<open>
  A Python \<open>datetime\<close> (naive, no time zone) is a calendar date together with a
  time of day. The calendar date is kept as its proleptic Gregorian ordinal (what
  \<open>toordinal()\<close> returns), the time of day as the number of microseconds since
  midnight. \<open>dt.date()\<close> forgets the time of day.
\<close>

record datetime =
  ordinal :: int
  micros :: nat

definition date :: "datetime \<Rightarrow> int" where
  "date dt = ordinal dt"

text \<open>Python compares two datetimes by date first and time of day second.\<close>

definition dt_less :: "datetime \<Rightarrow> datetime \<Rightarrow> bool" where
  "dt_less a b \<longleftrightarrow> ordinal a < ordinal b \<or> (ordinal a = ordinal b \<and> micros a < micros b)"

section \<open>Transactions\<close>

text \<open>
  The constructor receives arbitrary Python objects. For \<open>when\<close> the code tells apart
  \<open>None\<close>, a \<open>datetime\<close>, a \<open>dateutil\<close> \<open>rrule\<close> and anything else. An
  \<open>rrule\<close> is an external, re-iterable object; the code only ever iterates it, so it
  is represented by the finite sequence of datetimes it enumerates.
\<close>

datatype pyobj =
    PyNone
  | PyDatetime datetime
  | PyRrule "datetime list"
  | PyOther string

datatype error = ValueError string

record transaction =
  "when" :: pyobj
  amount :: int
  name :: "string option"

fun isinstance_datetime :: "pyobj \<Rightarrow> bool" where
  "isinstance_datetime (PyDatetime _) = True"
| "isinstance_datetime _ = False"

fun isinstance_rrule :: "pyobj \<Rightarrow> bool" where
  "isinstance_rrule (PyRrule _) = True"
| "isinstance_rrule _ = False"

text \<open>\<open>Transaction.__init__(self, when, amount, name=None)\<close>\<close>

definition Transaction :: "pyobj \<Rightarrow> int option \<Rightarrow> string option \<Rightarrow> error + transaction" where
  "Transaction w a n =
     (if w = PyNone \<or> a = None then
        Inl (ValueError ''Transaction missing required constructor parameter...'')
      else if \<not> (isinstance_datetime w \<or> isinstance_rrule w) then
        Inl (ValueError ''Transaction .when was not correct type'')
      else Inr \<lparr>when = w, amount = the a, name = n\<rparr>)"

text \<open>
  \<open>doesTransactForDay\<close>: a datetime is compared by calendar date; an rrule is mapped to
  the calendar dates of its occurrences and searched.
\<close>

definition doesTransactForDay :: "transaction \<Rightarrow> datetime \<Rightarrow> bool" where
  "doesTransactForDay t dayTime =
     (case when t of
        PyDatetime dt \<Rightarrow> date dt = date dayTime
      | PyRrule occ \<Rightarrow> date dayTime \<in> set (map date occ)
      | _ \<Rightarrow> False)"

definition getAmountForDay :: "transaction \<Rightarrow> datetime \<Rightarrow> int" where
  "getAmountForDay t dayTime = (if doesTransactForDay t dayTime then amount t else 0)"

subsection \<open>Formatting\<close>

text \<open>Python's \<open>str\<close> on an integer: decimal digits, with a leading minus sign.\<close>

definition digit_char :: "nat \<Rightarrow> char" where
  "digit_char d = ''0123456789'' ! d"

fun str_nat :: "nat \<Rightarrow> string" where
  "str_nat n = (if n < 10 then [digit_char n] else str_nat (n div 10) @ [digit_char (n mod 10)])"

declare str_nat.simps [simp del]

definition str :: "int \<Rightarrow> string" where
  "str i = (if i < 0 then CHR ''-'' # str_nat (nat (- i)) else str_nat (nat i))"

text \<open>
  \<open>getFormattedName(self, dayTime=None)\<close>. A datetime is always truthy, so
  \<open>if dayTime\<close> tests that the argument was given; \<open>if self.name\<close> is false for
  \<open>None\<close> and for the empty string. \<open>str(self.amount)[1:]\<close> drops the first
  character.
\<close>

definition truthy_name :: "string option \<Rightarrow> bool" where
  "truthy_name n = (case n of None \<Rightarrow> False | Some s \<Rightarrow> s \<noteq> [])"

definition getFormattedName :: "transaction \<Rightarrow> datetime option \<Rightarrow> string" where
  "getFormattedName t dayTime =
     (if dayTime \<noteq> None \<and> \<not> doesTransactForDay t (the dayTime) then []
      else (if truthy_name (name t) then the (name t) @ '': '' else [])
           @ (if amount t < 0 then ''-'' else [])
           @ ''$''
           @ (if amount t < 0 then drop 1 (str (amount t)) else str (amount t)))"

section \<open>Projecting daily differences\<close>

text \<open>
  \<open>rrule(DAILY, dtstart=fromDate, until=toDate)\<close> belongs to \<open>dateutil\<close>, not to this
  program. Its documented behaviour is modelled: the start loses its microseconds, the
  occurrences are the start plus whole days, each with the start's time of day, and the
  last occurrence is the greatest one that is not later than \<open>until\<close>.
\<close>

definition add_day :: "datetime \<Rightarrow> datetime" where
  "add_day dt = dt\<lparr>ordinal := ordinal dt + 1\<rparr>"

function daily_until :: "datetime \<Rightarrow> datetime \<Rightarrow> datetime list" where
  "daily_until cur until =
     (if dt_less until cur then [] else cur # daily_until (add_day cur) until)"
  by pat_completeness auto
termination
  by (relation "measure (\<lambda>(cur, until). nat (ordinal until + 1 - ordinal cur))")
     (auto simp: dt_less_def add_day_def)

declare daily_until.simps [simp del]

definition rrule_DAILY :: "datetime \<Rightarrow> datetime \<Rightarrow> datetime list" where
  "rrule_DAILY dtstart until =
     daily_until (dtstart\<lparr>micros := micros dtstart - micros dtstart mod 1000000\<rparr>) until"

text \<open>\<open>",".join(txts)\<close>\<close>

fun join :: "string \<Rightarrow> string list \<Rightarrow> string" where
  "join sep [] = []"
| "join sep [x] = x"
| "join sep (x # y # ys) = x @ sep @ join sep (y # ys)"

text \<open>
  \<open>projectDiffs\<close> is a loop over the enumerated days that appends to two lists. The
  state of the loop is the argument list \<open>transactions\<close> and the two result lists; the
  body copies the list (\<open>ts = transactions[:]\<close>), sums the amounts of the day
  (\<open>sum\<close> starts from 0) and joins the non-empty formatted names.
\<close>

record pd_state =
  transactions :: "transaction list"
  diffs :: "int list"
  labels :: "string list"

definition projectDiffs_body :: "pd_state \<Rightarrow> datetime \<Rightarrow> pd_state" where
  "projectDiffs_body st day =
     (let ts = transactions st;
          amnts = map (\<lambda>t. getAmountForDay t day) ts;
          tSum = sum_list amnts;
          txts = map (\<lambda>t. getFormattedName t (Some day)) ts;
          txts' = filter (\<lambda>txt. txt \<noteq> []) txts
      in st\<lparr>diffs := diffs st @ [tSum], labels := labels st @ [join '','' txts']\<rparr>)"

definition projectDiffs_loop :: "transaction list \<Rightarrow> datetime list \<Rightarrow> pd_state" where
  "projectDiffs_loop ts days =
     foldl projectDiffs_body \<lparr>transactions = ts, diffs = [], labels = []\<rparr> days"

definition projectDiffs :: "transaction list \<Rightarrow> datetime \<Rightarrow> datetime \<Rightarrow> int list \<times> string list" where
  "projectDiffs ts fromDate toDate =
     (let st = projectDiffs_loop ts (rrule_DAILY fromDate toDate) in (diffs st, labels st))"

text \<open>The number of calendar days from one date to another, both included.\<close>

definition numberOfDaysInclusive :: "datetime \<Rightarrow> datetime \<Rightarrow> nat" where
  "numberOfDaysInclusive fromDate toDate = nat (date toDate - date fromDate + 1)"

section \<open>Balances and the lower limit\<close>

text \<open>
  In this section Python numbers are exact reals: the rounding of binary floating point
  is not part of it, so it describes the loops as far as the arithmetic is exact. The
  first loop in Python's own arithmetic, with exact ints and rounded floats, is
  \<open>py_simulate\<close> below. The only non-finite value the code creates is
  \<open>float("inf")\<close>, the first running minimum; \<open>num\<close> adds it to the reals.
\<close>

datatype num = Fin real | Inf

instantiation num :: linorder
begin

fun less_eq_num :: "num \<Rightarrow> num \<Rightarrow> bool" where
  "less_eq_num (Fin a) (Fin b) = (a \<le> b)"
| "less_eq_num _ Inf = True"
| "less_eq_num Inf (Fin _) = False"

definition less_num :: "num \<Rightarrow> num \<Rightarrow> bool" where
  "less_num a b \<longleftrightarrow> a \<le> b \<and> \<not> b \<le> (a::num)"

instance
proof
  fix x y z :: num
  show "(x < y) = (x \<le> y \<and> \<not> y \<le> x)"
    by (simp add: less_num_def)
  show "x \<le> x"
    by (cases x) simp_all
  show "x \<le> y \<Longrightarrow> y \<le> z \<Longrightarrow> x \<le> z"
    by (cases x; cases y; cases z) simp_all
  show "x \<le> y \<Longrightarrow> y \<le> x \<Longrightarrow> x = y"
    by (cases x; cases y) simp_all
  show "x \<le> y \<or> y \<le> x"
    by (cases x; cases y) auto
qed

end

text \<open>
  Python's two-argument \<open>min(a, b)\<close> keeps \<open>a\<close> unless \<open>b\<close> is strictly smaller.
\<close>

definition py_min :: "num \<Rightarrow> num \<Rightarrow> num" where
  "py_min a b = (if b < a then b else a)"




text \<open>
  The second loop (lines 83 to 90) walks \<open>reversed(list(enumerate(saveBalances)))\<close>,
  lowers the running minimum and inserts it at the front of the result.
\<close>

record ll_state =
  lowerLimitBalances :: "num list"
  currentLowerLimit :: num

definition lowerLimit_body :: "ll_state \<Rightarrow> nat \<times> real \<Rightarrow> ll_state" where
  "lowerLimit_body st ib =
     (let cur = py_min (Fin (snd ib)) (currentLowerLimit st)
      in \<lparr>lowerLimitBalances = cur # lowerLimitBalances st, currentLowerLimit = cur\<rparr>)"

definition computeLowerLimit :: "real list \<Rightarrow> num list" where
  "computeLowerLimit sb =
     lowerLimitBalances
       (foldl lowerLimit_body \<lparr>lowerLimitBalances = [], currentLowerLimit = Inf\<rparr>
          (rev (enumerate 0 sb)))"



section \<open>The forward simulation in Python's own arithmetic\<close>

subsection \<open>Rounding to a float\<close>

text \<open>
  A Python float is an IEEE 754 binary64 number: a multiple of a power of two with a
  mantissa of at most 53 bits and a least exponent of -1074. Every operation on floats
  computes the exact result and rounds it to the nearest float, a tie to the one with the
  even mantissa. \<open>rhe\<close> rounds a real to the nearest integer, ties to even; \<open>ilog2\<close>
  is the position of the leading bit of a positive real; \<open>round64\<close> scales the number
  so that its mantissa has 53 bits (fewer below the least exponent), rounds it to an
  integer and scales back. Negative numbers are rounded by magnitude.
\<close>

definition rhe :: "real \<Rightarrow> int" where
  "rhe y = (let f = \<lfloor>y\<rfloor>; r = y - of_int f
            in if r < 1 / 2 then f else if 1 / 2 < r then f + 1 else if even f then f else f + 1)"

definition ilog2 :: "real \<Rightarrow> int" where
  "ilog2 x = (if 1 \<le> x then bitlen \<lfloor>x\<rfloor> - 1 else - bitlen (\<lceil>1 / x\<rceil> - 1))"

definition round_pos :: "real \<Rightarrow> real" where
  "round_pos x =
     (if x = 0 then 0
      else let e = max (ilog2 x - 52) (- 1074) in of_int (rhe (x / 2 powi e)) * 2 powi e)"

definition round64 :: "real \<Rightarrow> real" where
  "round64 x = (if x < 0 then - round_pos (- x) else round_pos x)"

text \<open>
  A rounded result of magnitude \<open>2 ^ 1024\<close> or more is not a finite float. Python then
  yields an infinity, or raises \<open>OverflowError\<close> when an int is converted; the model
  stops there and returns \<open>None\<close>.
\<close>

definition to_float64 :: "real \<Rightarrow> real option" where
  "to_float64 x = (let y = round64 x in if \<bar>y\<bar> < 2 ^ 1024 then Some y else None)"

subsection \<open>Ints and floats\<close>

text \<open>
  A number is an int of any size or a finite float. Ints are added, subtracted and
  multiplied exactly. When one operand is a float the other one is converted to a
  float (\<open>py_float\<close>, which rounds an int that has more than 53 bits) and the result
  is rounded. Comparison is exact, also between an int and a float. Infinities and
  \<open>nan\<close> are not numbers of the model.
\<close>

datatype pynum = PyInt int | PyFloat real

fun py_real :: "pynum \<Rightarrow> real" where
  "py_real (PyInt n) = of_int n"
| "py_real (PyFloat x) = x"

fun py_float :: "pynum \<Rightarrow> real option" where
  "py_float (PyInt n) = to_float64 (of_int n)"
| "py_float (PyFloat x) = Some x"

definition float_op :: "(real \<Rightarrow> real \<Rightarrow> real) \<Rightarrow> pynum \<Rightarrow> pynum \<Rightarrow> pynum option" where
  "float_op f a b = do {
     x \<leftarrow> py_float a;
     y \<leftarrow> py_float b;
     z \<leftarrow> to_float64 (f x y);
     Some (PyFloat z)
   }"

fun py_add :: "pynum \<Rightarrow> pynum \<Rightarrow> pynum option" where
  "py_add (PyInt m) (PyInt n) = Some (PyInt (m + n))"
| "py_add a b = float_op (+) a b"

fun py_sub :: "pynum \<Rightarrow> pynum \<Rightarrow> pynum option" where
  "py_sub (PyInt m) (PyInt n) = Some (PyInt (m - n))"
| "py_sub a b = float_op (-) a b"

fun py_mul :: "pynum \<Rightarrow> pynum \<Rightarrow> pynum option" where
  "py_mul (PyInt m) (PyInt n) = Some (PyInt (m * n))"
| "py_mul a b = float_op (*) a b"

definition py_less :: "pynum \<Rightarrow> pynum \<Rightarrow> bool" where
  "py_less a b \<longleftrightarrow> py_real a < py_real b"

text \<open>
  A float of the model is a float of Python when rounding leaves it as it is and it is
  in the finite range. An int is converted to a float without error when its magnitude
  is at most \<open>2 ^ 53\<close>.
\<close>

fun is_float64 :: "pynum \<Rightarrow> bool" where
  "is_float64 (PyInt n) = True"
| "is_float64 (PyFloat x) = (round64 x = x \<and> \<bar>x\<bar> < 2 ^ 1024)"

fun exact_int :: "pynum \<Rightarrow> bool" where
  "exact_int (PyInt n) = (\<bar>n\<bar> \<le> 2 ^ 53)"
| "exact_int (PyFloat x) = True"

subsection \<open>The loop\<close>

text \<open>
  Lines 72 to 80 of \<open>createBalanceGraph\<close> once more, with Python's arithmetic.
  \<open>py_contrib\<close> is the expression
  \<open>diff if diff < 0 else (diff * (1-saveProportion))\<close>.
\<close>

record py_sim_state =
  py_balances :: "pynum list"
  py_saveBalances :: "pynum list"
  py_currentBalance :: pynum
  py_currentSaveBalance :: pynum

definition py_contrib :: "pynum \<Rightarrow> pynum \<Rightarrow> pynum option" where
  "py_contrib saveProportion diff =
     (if py_less diff (PyInt 0) then Some diff
      else do { q \<leftarrow> py_sub (PyInt 1) saveProportion; py_mul diff q })"

definition py_simulate_body :: "pynum \<Rightarrow> py_sim_state \<Rightarrow> pynum \<Rightarrow> py_sim_state option" where
  "py_simulate_body saveProportion st diff = do {
     cb \<leftarrow> py_add (py_currentBalance st) diff;
     inc \<leftarrow> py_contrib saveProportion diff;
     csb \<leftarrow> py_add (py_currentSaveBalance st) inc;
     Some \<lparr>py_balances = py_balances st @ [cb], py_saveBalances = py_saveBalances st @ [csb],
           py_currentBalance = cb, py_currentSaveBalance = csb\<rparr>
   }"

fun py_simulate_loop :: "pynum \<Rightarrow> py_sim_state \<Rightarrow> pynum list \<Rightarrow> py_sim_state option" where
  "py_simulate_loop saveProportion st [] = Some st"
| "py_simulate_loop saveProportion st (diff # ds) =
     (case py_simulate_body saveProportion st diff of
        None \<Rightarrow> None
      | Some st' \<Rightarrow> py_simulate_loop saveProportion st' ds)"

definition py_simulate :: "pynum list \<Rightarrow> pynum \<Rightarrow> pynum \<Rightarrow> (pynum list \<times> pynum list) option" where
  "py_simulate ds startAmount saveProportion =
     map_option (\<lambda>st. (py_balances st, py_saveBalances st))
       (py_simulate_loop saveProportion
          \<lparr>py_balances = [], py_saveBalances = [],
           py_currentBalance = startAmount, py_currentSaveBalance = startAmount\<rparr> ds)"

section \<open>Auxiliary functions for the proofs\<close>


fun run_sums :: "(real \<Rightarrow> real) \<Rightarrow> real \<Rightarrow> real list \<Rightarrow> real list" where
  "run_sums f c [] = []"
| "run_sums f c (d # ds) = (c + f d) # run_sums f (c + f d) ds"

fun sufmin :: "real list \<Rightarrow> num list" where
  "sufmin [] = []"
| "sufmin (x # xs) = py_min (Fin x) (case sufmin xs of [] \<Rightarrow> Inf | m # _ \<Rightarrow> m) # sufmin xs"

definition ulp_exp :: "real \<Rightarrow> int" where
  "ulp_exp x = max (ilog2 x - 52) (- 1074)"

fun is_int :: "pynum \<Rightarrow> bool" where
  "is_int (PyInt n) = True"
| "is_int (PyFloat x) = False"

fun flv :: "pynum \<Rightarrow> real" where
  "flv (PyInt n) = round64 (of_int n)"
| "flv (PyFloat x) = x"

fun py_run :: "pynum \<Rightarrow> pynum \<Rightarrow> pynum \<Rightarrow> pynum list \<Rightarrow> (pynum \<times> pynum) list option" where
  "py_run sp cb csb [] = Some []"
| "py_run sp cb csb (d # ds) = do {
     cb' \<leftarrow> py_add cb d;
     inc \<leftarrow> py_contrib sp d;
     csb' \<leftarrow> py_add csb inc;
     rest \<leftarrow> py_run sp cb' csb' ds;
     Some ((cb', csb') # rest)
   }"

section \<open>The lower limit is the suffix minimum\<close>

lemma py_min_Fin [simp]: "py_min (Fin a) (Fin b) = Fin (min a b)"
  by (auto simp: py_min_def less_num_def min_def)

lemma py_min_Inf [simp]: "py_min a Inf = a"
  by (cases a) (auto simp: py_min_def less_num_def)

lemma py_min_le2: "py_min a b \<le> b"
  by (auto simp: py_min_def)

lemma py_min_le1: "py_min a b \<le> a"
  by (auto simp: py_min_def)

lemma lowerLimit_foldr:
  "foldr (\<lambda>ib st. lowerLimit_body st ib) (enumerate n sb)
     \<lparr>lowerLimitBalances = [], currentLowerLimit = Inf\<rparr>
   = \<lparr>lowerLimitBalances = sufmin sb,
      currentLowerLimit = (case sufmin sb of [] \<Rightarrow> Inf | m # _ \<Rightarrow> m)\<rparr>"
  by (induction sb arbitrary: n) (simp_all add: lowerLimit_body_def Let_def)

lemma computeLowerLimit_sufmin: "computeLowerLimit sb = sufmin sb"
  by (simp add: computeLowerLimit_def foldl_conv_foldr lowerLimit_foldr)

lemma length_sufmin [simp]: "length (sufmin xs) = length xs"
  by (induction xs) simp_all

lemma sufmin_hd: "xs \<noteq> [] \<Longrightarrow> (case sufmin xs of [] \<Rightarrow> Inf | m # _ \<Rightarrow> m) = Fin (Min (set xs))"
proof (induction xs)
  case Nil
  then show ?case by simp
next
  case (Cons x xs)
  show ?case
  proof (cases "xs = []")
    case True
    then show ?thesis by simp
  next
    case False
    with Cons.IH show ?thesis by simp
  qed
qed

lemma sufmin_nth: "i < length xs \<Longrightarrow> sufmin xs ! i = Fin (Min (set (drop i xs)))"
proof (induction xs arbitrary: i)
  case Nil
  then show ?case by simp
next
  case (Cons x xs)
  show ?case
  proof (cases i)
    case 0
    have "(case sufmin (x # xs) of [] \<Rightarrow> Inf | m # _ \<Rightarrow> m) = Fin (Min (set (x # xs)))"
      by (rule sufmin_hd) simp
    with 0 show ?thesis by simp
  next
    case (Suc j)
    with Cons show ?thesis by simp
  qed
qed

lemma sufmin_step:
  "i < length xs \<Longrightarrow>
   sufmin xs ! i = py_min (Fin (xs ! i)) (if Suc i < length xs then sufmin xs ! Suc i else Inf)"
proof (induction xs arbitrary: i)
  case Nil
  then show ?case by simp
next
  case (Cons x xs)
  show ?case
  proof (cases i)
    case 0
    then show ?thesis by (cases xs) simp_all
  next
    case (Suc j)
    with Cons show ?thesis by simp
  qed
qed

lemma sufmin_mono: "Suc i < length xs \<Longrightarrow> sufmin xs ! i \<le> sufmin xs ! Suc i"
  using sufmin_step [of i xs] by (simp add: py_min_le2)

lemma sufmin_below: "i < length xs \<Longrightarrow> sufmin xs ! i \<le> Fin (xs ! i)"
  using sufmin_step [of i xs] by (simp add: py_min_le1)

lemma sufmin_last: "xs \<noteq> [] \<Longrightarrow> last (sufmin xs) = Fin (last xs)"
  by (induction xs) (auto simp: neq_Nil_conv)

lemma sufmin_sorted: "sorted (sufmin xs)"
  by (simp add: sorted_iff_nth_Suc sufmin_mono)

text \<open>
  Claim C1. For every sequence \<open>saveBalances\<close> the computed lower limit has the same
  length, and at every index \<open>i\<close> it is the minimum of \<open>saveBalances[i..end]\<close>. It
  is what the backward walk gives: the minimum of \<open>saveBalances[i]\<close> and the running
  minimum, which is the next entry of the result, or plus infinity at the last index.
  The empty sequence gives the empty result.
\<close>

theorem computeLowerLimit_suffix_min:
  "length (computeLowerLimit sb) = length sb \<and>
   computeLowerLimit [] = [] \<and>
   (\<forall>i<length sb.
      computeLowerLimit sb ! i = Fin (Min (set (drop i sb))) \<and>
      computeLowerLimit sb ! i =
        py_min (Fin (sb ! i)) (if Suc i < length sb then computeLowerLimit sb ! Suc i else Inf))"
proof -
  have "computeLowerLimit [] = []"
    by (simp add: computeLowerLimit_sufmin)
  moreover have "length (computeLowerLimit sb) = length sb"
    by (simp add: computeLowerLimit_sufmin)
  moreover have "computeLowerLimit sb ! i = Fin (Min (set (drop i sb)))" if "i < length sb" for i
    using that by (simp add: computeLowerLimit_sufmin sufmin_nth)
  moreover have "computeLowerLimit sb ! i =
      py_min (Fin (sb ! i)) (if Suc i < length sb then computeLowerLimit sb ! Suc i else Inf)"
    if "i < length sb" for i
    unfolding computeLowerLimit_sufmin using that by (rule sufmin_step)
  ultimately show ?thesis by blast
qed

theorem computeLowerLimit_suffix_min_witness:
  "(1::nat) < length [90, 115, 110 :: real] \<and>
   computeLowerLimit [90, 115, 110] ! 1 = Fin 110 \<and>
   computeLowerLimit [90, 115, 110] ! 0 = Fin 90 \<and>
   length (computeLowerLimit [90, 115, 110]) = 3"
proof -
  let ?sb = "[90, 115, 110 :: real]"
  note inst = computeLowerLimit_suffix_min [of ?sb]
  from inst have len: "length (computeLowerLimit ?sb) = 3" by simp
  from inst have "\<forall>i<length ?sb. computeLowerLimit ?sb ! i = Fin (Min (set (drop i ?sb)))"
    by blast
  then have "computeLowerLimit ?sb ! 1 = Fin (Min (set (drop 1 ?sb)))"
    and "computeLowerLimit ?sb ! 0 = Fin (Min (set (drop 0 ?sb)))"
    by simp_all
  then show ?thesis using len by simp
qed

text \<open>
  Claim C4. The lower limit never decreases along the index, never exceeds the
  savings-adjusted balance of the same day, and meets it on the last day.
\<close>

theorem lowerLimit_invariants:
  "sorted (computeLowerLimit sb) \<and>
   (\<forall>i. Suc i < length sb \<longrightarrow> computeLowerLimit sb ! i \<le> computeLowerLimit sb ! Suc i) \<and>
   (\<forall>i<length sb. computeLowerLimit sb ! i \<le> Fin (sb ! i)) \<and>
   (sb \<noteq> [] \<longrightarrow> last (computeLowerLimit sb) = Fin (last sb))"
  unfolding computeLowerLimit_sufmin
  by (simp add: sufmin_sorted sufmin_mono sufmin_below sufmin_last)

theorem lowerLimit_invariants_witness:
  "Suc 0 < length [5, 3, 8 :: real] \<and>
   computeLowerLimit [5, 3, 8] ! 0 \<le> computeLowerLimit [5, 3, 8] ! Suc 0 \<and>
   computeLowerLimit [5, 3, 8] ! 0 \<le> Fin 5 \<and>
   [5, 3, 8 :: real] \<noteq> [] \<and>
   last (computeLowerLimit [5, 3, 8]) = Fin 8"
proof -
  let ?sb = "[5, 3, 8 :: real]"
  note inst = lowerLimit_invariants [of ?sb]
  from inst have "Suc 0 < length ?sb \<longrightarrow> computeLowerLimit ?sb ! 0 \<le> computeLowerLimit ?sb ! Suc 0"
    by blast
  moreover from inst have "0 < length ?sb \<longrightarrow> computeLowerLimit ?sb ! 0 \<le> Fin (?sb ! 0)"
    by blast
  moreover from inst have "?sb \<noteq> [] \<longrightarrow> last (computeLowerLimit ?sb) = Fin (last ?sb)"
    by blast
  ultimately show ?thesis by simp
qed

section \<open>The forward simulation\<close>




lemma length_run_sums [simp]: "length (run_sums f c ds) = length ds"
  by (induction ds arbitrary: c) simp_all




section \<open>Rounding is monotone and exact on small integers\<close>

lemma rhe_of_int [simp]: "rhe (of_int n) = n"
  by (simp add: rhe_def)

lemma rhe_bounds: "\<lfloor>y\<rfloor> \<le> rhe y \<and> rhe y \<le> \<lfloor>y\<rfloor> + 1"
  by (simp add: rhe_def Let_def)

lemma rhe_le: "y \<le> of_int n \<Longrightarrow> rhe y \<le> n"
proof -
  assume le: "y \<le> of_int n"
  show ?thesis
  proof (cases "y = of_int n")
    case True
    then show ?thesis by simp
  next
    case False
    with le have "y < of_int n" by simp
    then have "\<lfloor>y\<rfloor> < n" by (simp add: floor_less_iff)
    with rhe_bounds [of y] show ?thesis by linarith
  qed
qed

lemma rhe_ge: "of_int n \<le> y \<Longrightarrow> n \<le> rhe y"
proof -
  assume "of_int n \<le> y"
  then have "n \<le> \<lfloor>y\<rfloor>" by (simp add: le_floor_iff)
  with rhe_bounds [of y] show ?thesis by linarith
qed

lemma rhe_mono: "y \<le> z \<Longrightarrow> rhe y \<le> rhe z"
proof -
  assume yz: "y \<le> z"
  then have fl: "\<lfloor>y\<rfloor> \<le> \<lfloor>z\<rfloor>" by (rule floor_mono)
  show ?thesis
  proof (cases "\<lfloor>y\<rfloor> = \<lfloor>z\<rfloor>")
    case True
    with yz show ?thesis
      by (auto simp: rhe_def Let_def)
  next
    case False
    with fl have "\<lfloor>y\<rfloor> + 1 \<le> \<lfloor>z\<rfloor>" by simp
    with rhe_bounds [of y] rhe_bounds [of z] show ?thesis by linarith
  qed
qed

lemma ilog2_bounds:
  assumes "0 < x"
  shows "2 powi ilog2 x \<le> x \<and> x < 2 powi (ilog2 x + 1)"
proof (cases "1 \<le> x")
  case True
  define m where "m = \<lfloor>x\<rfloor>"
  from True have m: "0 < m" by (simp add: m_def)
  from bitlen_bounds [OF m] have lo: "2 ^ nat (bitlen m - 1) \<le> m" and hi: "m < 2 ^ nat (bitlen m)"
    by simp_all
  from m have b: "1 \<le> bitlen m" by (simp add: bitlen_alt_def)
  have 1: "real_of_int m \<le> x" by (simp add: m_def)
  have 2: "x < real_of_int m + 1" by (simp add: m_def)
  from hi have "m + 1 \<le> 2 ^ nat (bitlen m)" by simp
  then have "real_of_int (m + 1) \<le> real_of_int (2 ^ nat (bitlen m))" by (rule of_int_le_iff [THEN iffD2])
  then have 3: "real_of_int m + 1 \<le> 2 ^ nat (bitlen m)" by simp
  from lo have "real_of_int (2 ^ nat (bitlen m - 1)) \<le> real_of_int m" by (rule of_int_le_iff [THEN iffD2])
  then have 4: "(2::real) ^ nat (bitlen m - 1) \<le> real_of_int m" by simp
  from 1 2 3 4 have "2 ^ nat (bitlen m - 1) \<le> x \<and> x < 2 ^ nat (bitlen m)" by linarith
  moreover have "ilog2 x = bitlen m - 1" using True by (simp add: ilog2_def m_def)
  ultimately show ?thesis using b by (simp add: power_int_def)
next
  case False
  with assms have x: "0 < x" "x < 1" by simp_all
  define y where "y = 1 / x"
  define c where "c = \<lceil>y\<rceil> - 1"
  from x have y: "1 < y" by (simp add: y_def)
  then have c: "0 < c" by (simp add: c_def less_ceiling_iff)
  have cy: "real_of_int c < y" "y \<le> real_of_int c + 1"
    by (simp_all add: c_def ceiling_correct)
  from bitlen_bounds [OF c] have lo: "2 ^ nat (bitlen c - 1) \<le> c" and hi: "c < 2 ^ nat (bitlen c)"
    by simp_all
  from c have b: "1 \<le> bitlen c" by (simp add: bitlen_alt_def)
  from hi have "c + 1 \<le> 2 ^ nat (bitlen c)" by simp
  then have "real_of_int (c + 1) \<le> real_of_int (2 ^ nat (bitlen c))" by (rule of_int_le_iff [THEN iffD2])
  then have "real_of_int c + 1 \<le> 2 ^ nat (bitlen c)" by simp
  with cy have yhi: "y \<le> 2 ^ nat (bitlen c)" by linarith
  from lo have "real_of_int (2 ^ nat (bitlen c - 1)) \<le> real_of_int c" by (rule of_int_le_iff [THEN iffD2])
  then have "(2::real) ^ nat (bitlen c - 1) \<le> real_of_int c" by simp
  with cy have ylo: "2 ^ nat (bitlen c - 1) < y" by linarith
  have il: "ilog2 x = - bitlen c" using False by (simp add: ilog2_def c_def y_def)
  have xy: "x = 1 / y" using x by (simp add: y_def)
  from yhi y have "1 / 2 ^ nat (bitlen c) \<le> x"
    unfolding xy by (simp add: frac_le)
  moreover from ylo have "x < 1 / 2 ^ nat (bitlen c - 1)"
    unfolding xy by (simp add: frac_less2)
  moreover have "2 powi (- bitlen c) = 1 / (2::real) ^ nat (bitlen c)"
    using b by (simp add: power_int_def field_simps)
  moreover have "2 powi (- bitlen c + 1) = 1 / (2::real) ^ nat (bitlen c - 1)"
  proof -
    have "- bitlen c + 1 = - (bitlen c - 1)" by simp
    moreover have "2 powi (- (bitlen c - 1)) = 1 / (2::real) ^ nat (bitlen c - 1)"
      using b by (simp only: power_int_minus_divide power_int_nonneg_exp)
    ultimately show ?thesis by simp
  qed
  ultimately show ?thesis by (simp add: il)
qed


lemma pow2_less_D: "(2::real) powi a < 2 powi b \<Longrightarrow> a < b"
proof (rule ccontr)
  assume lt: "(2::real) powi a < 2 powi b" and "\<not> a < b"
  then have "b \<le> a" by simp
  then have "(2::real) powi b \<le> 2 powi a"
    by (intro power_int_increasing) simp_all
  with lt show False by simp
qed

lemma pow2_le_D: "(2::real) powi a \<le> 2 powi b \<Longrightarrow> a \<le> b"
proof (rule ccontr)
  assume le: "(2::real) powi a \<le> 2 powi b" and "\<not> a \<le> b"
  then have "b < a" by simp
  then have "(2::real) powi b < 2 powi a"
    by (intro power_int_strict_increasing) simp_all
  with le show False by simp
qed

lemma round_pos_alt: "round_pos x = (if x = 0 then 0 else of_int (rhe (x / 2 powi ulp_exp x)) * 2 powi ulp_exp x)"
  by (simp add: round_pos_def ulp_exp_def Let_def)

lemma ilog2_mono:
  assumes "0 < x" "x \<le> y"
  shows "ilog2 x \<le> ilog2 y"
proof -
  from assms have y: "0 < y" by simp
  from ilog2_bounds [OF assms(1)] ilog2_bounds [OF y] assms(2)
  have "(2::real) powi ilog2 x < 2 powi (ilog2 y + 1)" by linarith
  then have "ilog2 x < ilog2 y + 1"
    by (rule pow2_less_D)
  then show ?thesis by simp
qed

lemma round_pos_nonneg: "0 \<le> x \<Longrightarrow> 0 \<le> round_pos x"
proof -
  assume x: "0 \<le> x"
  have "0 \<le> rhe (x / 2 powi ulp_exp x)"
    by (rule rhe_ge) (use x in simp)
  then show ?thesis
    by (simp add: round_pos_alt)
qed

lemma round_pos_upper:
  assumes "0 < x"
  shows "round_pos x \<le> 2 powi (ulp_exp x + 53)"
proof -
  let ?e = "ulp_exp x"
  have p: "0 < (2::real) powi ?e" by simp
  have "ilog2 x + 1 \<le> ?e + 53" by (simp add: ulp_exp_def)
  then have "(2::real) powi (ilog2 x + 1) \<le> 2 powi (?e + 53)"
    by (intro power_int_increasing) simp_all
  with ilog2_bounds [OF assms] have "x \<le> 2 powi (?e + 53)" by linarith
  also have "(2::real) powi (?e + 53) = 2 powi ?e * 2 ^ 53"
    by (simp add: power_int_add)
  finally have "x / 2 powi ?e \<le> 2 ^ 53"
    using p by (simp add: field_simps)
  then have "x / 2 powi ?e \<le> of_int (2 ^ 53)" by simp
  then have "rhe (x / 2 powi ?e) \<le> 2 ^ 53" by (rule rhe_le)
  then have "real_of_int (rhe (x / 2 powi ?e)) \<le> 2 ^ 53"
    by (metis of_int_le_iff of_int_numeral of_int_power)
  then have "real_of_int (rhe (x / 2 powi ?e)) * 2 powi ?e \<le> 2 ^ 53 * 2 powi ?e"
    using p by (simp only: mult_le_cancel_right_pos)
  then show ?thesis using assms
    by (simp add: round_pos_alt power_int_add mult.commute)
qed

lemma round_pos_lower:
  assumes "0 < y" "ulp_exp y = ilog2 y - 52"
  shows "2 powi (ulp_exp y + 52) \<le> round_pos y"
proof -
  let ?e = "ulp_exp y"
  have p: "0 < (2::real) powi ?e" by simp
  from assms(2) have "(2::real) powi (?e + 52) = 2 powi ilog2 y" by simp
  with ilog2_bounds [OF assms(1)] have "(2::real) powi (?e + 52) \<le> y" by simp
  moreover have "(2::real) powi (?e + 52) = 2 powi ?e * 2 ^ 52"
    by (simp add: power_int_add)
  ultimately have "2 ^ 52 \<le> y / 2 powi ?e"
    using p by (simp add: field_simps)
  then have "of_int (2 ^ 52) \<le> y / 2 powi ?e" by simp
  then have "2 ^ 52 \<le> rhe (y / 2 powi ?e)" by (rule rhe_ge)
  then have "2 ^ 52 \<le> real_of_int (rhe (y / 2 powi ?e))"
    by (metis of_int_le_iff of_int_numeral of_int_power)
  then have "2 ^ 52 * 2 powi ?e \<le> real_of_int (rhe (y / 2 powi ?e)) * 2 powi ?e"
    using p by (simp only: mult_le_cancel_right_pos)
  then show ?thesis using assms(1)
    by (simp add: round_pos_alt power_int_add mult.commute)
qed

lemma round_pos_mono:
  assumes "0 \<le> x" "x \<le> y"
  shows "round_pos x \<le> round_pos y"
proof (cases "x = 0")
  case True
  with assms round_pos_nonneg [of y] show ?thesis by (simp add: round_pos_alt)
next
  case False
  with assms have x: "0 < x" and y: "0 < y" by simp_all
  have e: "ulp_exp x \<le> ulp_exp y"
    using ilog2_mono [OF x assms(2)] by (simp add: ulp_exp_def)
  show ?thesis
  proof (cases "ulp_exp x = ulp_exp y")
    case True
    have "x / 2 powi ulp_exp y \<le> y / 2 powi ulp_exp y"
      using assms(2) by (simp add: divide_right_mono)
    then have "rhe (x / 2 powi ulp_exp y) \<le> rhe (y / 2 powi ulp_exp y)" by (rule rhe_mono)
    then have "real_of_int (rhe (x / 2 powi ulp_exp y)) * 2 powi ulp_exp y
             \<le> real_of_int (rhe (y / 2 powi ulp_exp y)) * 2 powi ulp_exp y"
      by (simp add: mult_right_mono)
    with True x y show ?thesis by (simp add: round_pos_alt)
  next
    case False
    with e have lt: "ulp_exp x < ulp_exp y" by simp
    then have "ulp_exp y \<noteq> - 1074" by (simp add: ulp_exp_def)
    then have ny: "ulp_exp y = ilog2 y - 52" by (simp add: ulp_exp_def max_def split: if_splits)
    from lt have "ulp_exp x + 53 \<le> ulp_exp y + 52" by simp
    then have "(2::real) powi (ulp_exp x + 53) \<le> 2 powi (ulp_exp y + 52)"
      by (intro power_int_increasing) simp_all
    with round_pos_upper [OF x] round_pos_lower [OF y ny] show ?thesis by linarith
  qed
qed

lemma round64_mono: "x \<le> y \<Longrightarrow> round64 x \<le> round64 y"
proof -
  assume xy: "x \<le> y"
  consider "0 \<le> x" | "x < 0" "0 \<le> y" | "y < 0" using xy by linarith
  then show ?thesis
  proof cases
    case 1
    with xy show ?thesis by (simp add: round64_def round_pos_mono)
  next
    case 2
    then have "0 \<le> round_pos (- x)" "0 \<le> round_pos y"
      by (simp_all add: round_pos_nonneg)
    with 2 show ?thesis by (simp add: round64_def)
  next
    case 3
    with xy have "round_pos (- y) \<le> round_pos (- x)"
      by (intro round_pos_mono) simp_all
    with 3 xy show ?thesis by (simp add: round64_def)
  qed
qed

lemma round_pos_int_exact:
  assumes "0 < n" "n \<le> 2 ^ 53"
  shows "round_pos (of_int n) = of_int n"
proof -
  let ?x = "real_of_int n"
  let ?e = "ulp_exp ?x"
  from assms have x: "0 < ?x" by simp
  from assms(2) have "?x \<le> 2 ^ 53"
    by (metis of_int_le_iff of_int_numeral of_int_power)
  with ilog2_bounds [OF x] have "(2::real) powi ilog2 ?x \<le> 2 ^ 53" by linarith
  then have "(2::real) powi ilog2 ?x \<le> 2 powi 53" by simp
  then have k: "ilog2 ?x \<le> 53" by (rule pow2_le_D)
  show ?thesis
  proof (cases "?e \<le> 0")
    case True
    have "(2::real) powi ?e = 1 / 2 ^ nat (- ?e)"
      using True by (metis minus_minus neg_0_le_iff_le power_int_minus_divide power_int_nonneg_exp)
    then have "?x / 2 powi ?e = of_int (n * 2 ^ nat (- ?e))" by simp
    then have "rhe (?x / 2 powi ?e) = n * 2 ^ nat (- ?e)" by (simp only: rhe_of_int)
    then have "of_int (rhe (?x / 2 powi ?e)) * 2 powi ?e = ?x * (2 ^ nat (- ?e) * 2 powi ?e)"
      by simp
    also have "(2::real) ^ nat (- ?e) * 2 powi ?e = 1"
      using \<open>2 powi ?e = 1 / 2 ^ nat (- ?e)\<close> by simp
    finally show ?thesis using x by (simp add: round_pos_alt)
  next
    case False
    with k have e1: "?e = 1" and k53: "ilog2 ?x = 53" by (simp_all add: ulp_exp_def)
    from ilog2_bounds [OF x] k53 have "2 ^ 53 \<le> ?x" by simp
    with \<open>?x \<le> 2 ^ 53\<close> have "?x = 2 ^ 53" by simp
    have pe: "(2::real) powi ?e = 2" using e1 by simp
    have "?x / 2 powi ?e = ?x / 2" by (simp only: pe)
    also have "\<dots> = of_int (2 ^ 52)" using \<open>?x = 2 ^ 53\<close> by simp
    finally have "rhe (?x / 2 powi ?e) = 2 ^ 52" by (simp only: rhe_of_int)
    then have "of_int (rhe (?x / 2 powi ?e)) * 2 powi ?e = (2 ^ 52 * 2 :: real)"
      by (simp only: pe) simp
    also have "\<dots> = ?x" using \<open>?x = 2 ^ 53\<close> by simp
    finally show ?thesis using x by (simp only: round_pos_alt) simp
  qed
qed

lemma round64_int_exact: "\<bar>n\<bar> \<le> 2 ^ 53 \<Longrightarrow> round64 (of_int n) = of_int n"
proof -
  assume b: "\<bar>n\<bar> \<le> 2 ^ 53"
  consider "n = 0" | "0 < n" | "n < 0" by linarith
  then show ?thesis
  proof cases
    case 1
    then show ?thesis by (simp add: round64_def round_pos_def)
  next
    case 2
    with b show ?thesis by (simp add: round64_def round_pos_int_exact)
  next
    case 3
    with b have "round_pos (of_int (- n)) = of_int (- n)"
      by (intro round_pos_int_exact) simp_all
    with 3 show ?thesis by (simp add: round64_def)
  qed
qed

lemma round64_0 [simp]: "round64 0 = 0"
  by (simp add: round64_def round_pos_def)

lemma round64_1 [simp]: "round64 1 = 1"
  using round64_int_exact [of 1] by simp

lemma round64_nonneg: "0 \<le> x \<Longrightarrow> 0 \<le> round64 x"
  using round64_mono [of 0 x] by simp

lemma round64_le_1: "x \<le> 1 \<Longrightarrow> round64 x \<le> 1"
  using round64_mono [of x 1] by simp

lemma round64_numeral: "(numeral k :: int) \<le> 2 ^ 53 \<Longrightarrow> round64 (numeral k) = numeral k"
  using round64_int_exact [of "numeral k"] by simp

lemma round64_neg_numeral:
  "(numeral k :: int) \<le> 2 ^ 53 \<Longrightarrow> round64 (- numeral k) = - numeral k"
  using round64_int_exact [of "- numeral k"] by simp

lemma round64_half: "round64 (1 / 2) = 1 / 2"
  by code_simp

section \<open>Python's arithmetic in the simulation\<close>

lemma to_float64_Some: "to_float64 x = Some y \<Longrightarrow> y = round64 x"
  by (simp add: to_float64_def Let_def split: if_splits)

lemma py_float_Some: "py_float a = Some x \<Longrightarrow> x = flv a"
  by (cases a) (auto dest: to_float64_Some)

lemma float_op_Some: "float_op f a b = Some c \<Longrightarrow> c = PyFloat (round64 (f (flv a) (flv b)))"
  by (auto simp: float_op_def bind_eq_Some_conv dest!: py_float_Some to_float64_Some)

lemma py_add_cases:
  "py_add a b = Some c \<Longrightarrow>
   (\<exists>m n. a = PyInt m \<and> b = PyInt n \<and> c = PyInt (m + n)) \<or>
   (\<not> (is_int a \<and> is_int b) \<and> c = PyFloat (round64 (flv a + flv b)))"
  by (cases a; cases b) (auto dest: float_op_Some)

lemma py_sub_cases:
  "py_sub a b = Some c \<Longrightarrow>
   (\<exists>m n. a = PyInt m \<and> b = PyInt n \<and> c = PyInt (m - n)) \<or>
   (\<not> (is_int a \<and> is_int b) \<and> c = PyFloat (round64 (flv a - flv b)))"
  by (cases a; cases b) (auto dest: float_op_Some)

lemma py_mul_cases:
  "py_mul a b = Some c \<Longrightarrow>
   (\<exists>m n. a = PyInt m \<and> b = PyInt n \<and> c = PyInt (m * n)) \<or>
   (\<not> (is_int a \<and> is_int b) \<and> c = PyFloat (round64 (flv a * flv b)))"
  by (cases a; cases b) (auto dest: float_op_Some)

lemma flv_exact: "exact_int a \<Longrightarrow> flv a = py_real a"
  by (cases a) (simp_all add: round64_int_exact)

lemma round64_flv: "exact_int a \<Longrightarrow> is_float64 a \<Longrightarrow> round64 (flv a) = flv a"
  by (cases a) (simp_all add: round64_int_exact)

lemma py_simulate_loop_run:
  "py_simulate_loop sp st ds = Some st' \<Longrightarrow>
   \<exists>ps. py_run sp (py_currentBalance st) (py_currentSaveBalance st) ds = Some ps \<and>
        py_balances st' = py_balances st @ map fst ps \<and>
        py_saveBalances st' = py_saveBalances st @ map snd ps"
proof (induction ds arbitrary: st)
  case Nil
  then show ?case by simp
next
  case (Cons d ds)
  from Cons.prems obtain st1 where
    b: "py_simulate_body sp st d = Some st1" and l: "py_simulate_loop sp st1 ds = Some st'"
    by (auto split: option.splits)
  from b obtain cb inc csb where
    cb: "py_add (py_currentBalance st) d = Some cb" and
    inc: "py_contrib sp d = Some inc" and
    csb: "py_add (py_currentSaveBalance st) inc = Some csb" and
    st1: "st1 = \<lparr>py_balances = py_balances st @ [cb], py_saveBalances = py_saveBalances st @ [csb],
                 py_currentBalance = cb, py_currentSaveBalance = csb\<rparr>"
    by (auto simp: py_simulate_body_def bind_eq_Some_conv)
  from Cons.IH [OF l] obtain ps where
    ps: "py_run sp (py_currentBalance st1) (py_currentSaveBalance st1) ds = Some ps"
      "py_balances st' = py_balances st1 @ map fst ps"
      "py_saveBalances st' = py_saveBalances st1 @ map snd ps"
    by blast
  with cb inc csb st1 show ?case by simp
qed

lemma py_simulate_run:
  "py_simulate ds s sp = Some (bs, sbs) \<Longrightarrow>
   \<exists>ps. py_run sp s s ds = Some ps \<and> bs = map fst ps \<and> sbs = map snd ps"
  by (auto simp: py_simulate_def dest!: py_simulate_loop_run)

lemma py_run_length: "py_run sp cb csb ds = Some ps \<Longrightarrow> length ps = length ds"
  by (induction ds arbitrary: cb csb ps) (auto simp: bind_eq_Some_conv)

lemmas py_eval = py_simulate_def py_simulate_body_def py_contrib_def py_less_def float_op_def
  to_float64_def Let_def

subsection \<open>Zero savings\<close>

lemma py_contrib_int_zero:
  assumes "py_contrib (PyInt 0) d = Some inc" "is_float64 d"
  shows "inc = d"
proof (cases "py_less d (PyInt 0)")
  case True
  with assms show ?thesis by (simp add: py_contrib_def)
next
  case False
  with assms(1) have m: "py_mul d (PyInt 1) = Some inc"
    by (simp add: py_contrib_def)
  show ?thesis
  proof (cases d)
    case (PyInt n)
    with m show ?thesis by simp
  next
    case (PyFloat x)
    with m have "inc = PyFloat (round64 (x * round64 1))"
      by (auto dest: float_op_Some)
    with PyFloat assms(2) show ?thesis by simp
  qed
qed

lemma py_run_int_zero:
  "py_run (PyInt 0) c c ds = Some ps \<Longrightarrow> list_all is_float64 ds \<Longrightarrow> map snd ps = map fst ps"
proof (induction ds arbitrary: c ps)
  case Nil
  then show ?case by simp
next
  case (Cons d ds)
  from Cons.prems(1) obtain cb' inc csb' rest where
    s: "py_add c d = Some cb'" "py_contrib (PyInt 0) d = Some inc" "py_add c inc = Some csb'"
      "py_run (PyInt 0) cb' csb' ds = Some rest" "ps = (cb', csb') # rest"
    by (auto simp: bind_eq_Some_conv)
  from Cons.prems(2) have d: "is_float64 d" and ds: "list_all is_float64 ds" by simp_all
  from py_contrib_int_zero [OF s(2) d] s(1) s(3) have eq: "csb' = cb'" by simp
  with s(4) have "py_run (PyInt 0) cb' cb' ds = Some rest" by simp
  from Cons.IH [OF this ds] eq s(5) show ?case by simp
qed

lemma py_contrib_zero:
  assumes inc: "py_contrib sp d = Some inc"
    and sp: "py_real sp = 0"
    and d: "is_float64 d" "exact_int d"
  shows "flv inc = flv d \<and> py_real inc = py_real d \<and> (is_int inc \<longrightarrow> is_int d)"
proof (cases "py_less d (PyInt 0)")
  case True
  with inc show ?thesis by (simp add: py_contrib_def)
next
  case False
  from False inc obtain q where q: "py_sub (PyInt 1) sp = Some q" and m: "py_mul d q = Some inc"
    by (auto simp: py_contrib_def bind_eq_Some_conv)
  have q1: "q = PyInt 1 \<or> q = PyFloat 1"
  proof (cases sp)
    case (PyInt k)
    with sp q show ?thesis by simp
  next
    case (PyFloat p)
    with q have "q = PyFloat (round64 (round64 1 - p))"
      by (auto dest: float_op_Some)
    with PyFloat sp show ?thesis by simp
  qed
  have fq: "flv q = 1" using q1 by auto
  have fd: "flv d = py_real d" using d(2) by (rule flv_exact)
  from py_mul_cases [OF m] show ?thesis
  proof (elim disjE exE conjE)
    fix n k
    assume e: "d = PyInt n" "q = PyInt k" "inc = PyInt (n * k)"
    with q1 have "k = 1" by simp
    with e show ?thesis by simp
  next
    assume "inc = PyFloat (round64 (flv d * flv q))"
    with fq round64_flv [OF d(2) d(1)] fd show ?thesis by simp
  qed
qed

lemma flv_eq:
  assumes "py_real csb = py_real cb" "is_int csb \<longrightarrow> is_int cb" "exact_int cb"
  shows "flv csb = flv cb"
proof (cases csb)
  case (PyInt s)
  with assms(2) obtain b where "cb = PyInt b" by (cases cb) auto
  with PyInt assms(1) show ?thesis by simp
next
  case (PyFloat s)
  with assms(1) flv_exact [OF assms(3)] show ?thesis by simp
qed

lemma py_step_eq:
  assumes cb': "py_add cb d = Some cb'"
    and inc: "py_contrib sp d = Some inc"
    and csb': "py_add csb inc = Some csb'"
    and sp: "py_real sp = 0"
    and d: "is_float64 d" "exact_int d"
    and inv: "py_real csb = py_real cb" "is_int csb \<longrightarrow> is_int cb" "exact_int cb"
    and ex: "exact_int cb'"
  shows "py_real csb' = py_real cb' \<and> (is_int csb' \<longrightarrow> is_int cb')"
proof -
  from py_contrib_zero [OF inc sp d]
  have i: "flv inc = flv d" "py_real inc = py_real d" "is_int inc \<longrightarrow> is_int d" by blast+
  have c: "flv csb = flv cb" using inv by (rule flv_eq)
  from py_add_cases [OF csb'] show ?thesis
  proof (elim disjE exE conjE)
    fix s j
    assume e: "csb = PyInt s" "inc = PyInt j" "csb' = PyInt (s + j)"
    with inv(2) i(3) obtain b n where bn: "cb = PyInt b" "d = PyInt n"
      by (cases cb; cases d) auto
    with cb' have "cb' = PyInt (b + n)" by simp
    with e bn inv(1) i(2) show ?thesis by simp
  next
    assume e: "csb' = PyFloat (round64 (flv csb + flv inc))"
    from py_add_cases [OF cb'] show ?thesis
    proof (elim disjE exE conjE)
      fix b n
      assume f: "cb = PyInt b" "d = PyInt n" "cb' = PyInt (b + n)"
      from inv(3) d(2) f have "flv cb + flv d = py_real cb'"
        by (simp add: round64_int_exact)
      moreover from ex f have "round64 (py_real cb') = py_real cb'"
        using round64_int_exact [of "b + n"] by simp
      ultimately show ?thesis using e c i(1) by simp
    next
      assume "cb' = PyFloat (round64 (flv cb + flv d))"
      with e c i(1) show ?thesis by simp
    qed
  qed
qed

lemma py_run_eq:
  assumes "py_run sp cb csb ds = Some ps"
    and "py_real sp = 0"
    and "list_all is_float64 ds" "list_all exact_int ds"
    and "list_all exact_int (map fst ps)"
    and "py_real csb = py_real cb" "is_int csb \<longrightarrow> is_int cb" "exact_int cb"
  shows "map py_real (map snd ps) = map py_real (map fst ps)"
  using assms
proof (induction ds arbitrary: cb csb ps)
  case Nil
  then show ?case by simp
next
  case (Cons d ds)
  from Cons.prems(1) obtain cb' inc csb' rest where
    s: "py_add cb d = Some cb'" "py_contrib sp d = Some inc" "py_add csb inc = Some csb'"
      "py_run sp cb' csb' ds = Some rest" "ps = (cb', csb') # rest"
    by (auto simp: bind_eq_Some_conv)
  from Cons.prems s(5) have ex: "exact_int cb'" and exr: "list_all exact_int (map fst rest)"
    and d: "is_float64 d" "exact_int d" and ds: "list_all is_float64 ds" "list_all exact_int ds"
    by simp_all
  from py_step_eq [OF s(1) s(2) s(3) Cons.prems(2) d Cons.prems(6,7,8) ex]
  have st: "py_real csb' = py_real cb'" "is_int csb' \<longrightarrow> is_int cb'" by blast+
  from Cons.IH [OF s(4) Cons.prems(2) ds exr st ex]
  have "map py_real (map snd rest) = map py_real (map fst rest)" .
  with st s(5) show ?case by simp
qed

text \<open>
  Claim C8, as stated, fails in the code's arithmetic. With the float 0.0 as save
  proportion (what \<open>min(savePercentage/100,1)\<close> gives for a percentage of 0), a start
  amount of 0 and the single difference \<open>2 ^ 53 + 1\<close>, the balance is the int
  9007199254740993 and the savings-adjusted balance the float 9007199254740992.0: the
  difference is converted to a float before it is multiplied, and the conversion rounds.
\<close>

theorem zero_savings_counterexample:
  "py_simulate [PyInt 9007199254740993] (PyInt 0) (PyFloat 0)
     = Some ([PyInt 9007199254740993], [PyFloat 9007199254740992]) \<and>
   py_real (PyFloat 9007199254740992) \<noteq> py_real (PyInt 9007199254740993)"
proof -
  have r: "round64 9007199254740993 = 9007199254740992"
    by code_simp
  have e: "round64 9007199254740992 = 9007199254740992"
    using round64_int_exact [of 9007199254740992] by simp
  show ?thesis
    by (simp add: py_eval r e)
qed

text \<open>
  Claim C8, amended. For a run that stays within the finite numbers: with the int 0 as
  save proportion the savings-adjusted balances are the balances, entry for entry; with
  any save proportion of value zero, such as the float 0.0, they are equal in value at
  every index provided that every int among the start amount, the differences and the
  balances has a magnitude of at most \<open>2 ^ 53\<close>.
\<close>

theorem py_zero_savings_roundtrip:
  assumes "py_simulate ds startAmount saveProportion = Some (bs, sbs)"
    and "list_all is_float64 (startAmount # ds)"
  shows "(saveProportion = PyInt 0 \<longrightarrow> sbs = bs) \<and>
         (py_real saveProportion = 0 \<and> list_all exact_int (startAmount # ds @ bs) \<longrightarrow>
            map py_real sbs = map py_real bs)"
proof -
  from py_simulate_run [OF assms(1)] obtain ps where
    ps: "py_run saveProportion startAmount startAmount ds = Some ps"
      "bs = map fst ps" "sbs = map snd ps" by blast
  from assms(2) have fl: "list_all is_float64 ds" by simp
  have a: "sbs = bs" if "saveProportion = PyInt 0"
    using py_run_int_zero [of startAmount ds ps] ps fl that by simp
  have b: "map py_real sbs = map py_real bs"
    if "py_real saveProportion = 0" "list_all exact_int (startAmount # ds @ bs)"
  proof -
    from that(2) ps(2) have "list_all exact_int ds" "list_all exact_int (map fst ps)"
      "exact_int startAmount" by simp_all
    from py_run_eq [OF ps(1) that(1) fl this(1,2) refl _ this(3)] ps show ?thesis by simp
  qed
  from a b show ?thesis by blast
qed

theorem py_zero_savings_roundtrip_witness:
  "py_simulate [PyInt (- 10), PyInt 50, PyInt (- 5)] (PyInt 100) (PyFloat 0)
     = Some ([PyInt 90, PyInt 140, PyInt 135], [PyInt 90, PyFloat 140, PyFloat 135]) \<and>
   list_all is_float64 [PyInt 100, PyInt (- 10), PyInt 50, PyInt (- 5)] \<and>
   py_real (PyFloat 0) = 0 \<and>
   list_all exact_int ([PyInt 100, PyInt (- 10), PyInt 50, PyInt (- 5)]
                       @ [PyInt 90, PyInt 140, PyInt 135]) \<and>
   map py_real [PyInt 90, PyFloat 140, PyFloat 135] = map py_real [PyInt 90, PyInt 140, PyInt 135] \<and>
   py_simulate [PyInt (- 10), PyFloat (1 / 2)] (PyInt 100) (PyInt 0)
     = Some ([PyInt 90, PyFloat (181 / 2)], [PyInt 90, PyFloat (181 / 2)])"
proof -
  let ?ds = "[PyInt (- 10), PyInt 50, PyInt (- 5)]"
  let ?bs = "[PyInt 90, PyInt 140, PyInt 135]"
  let ?sbs = "[PyInt 90, PyFloat 140, PyFloat 135]"
  have run: "py_simulate ?ds (PyInt 100) (PyFloat 0) = Some (?bs, ?sbs)"
    by (simp add: py_eval round64_numeral round64_neg_numeral)
  have fl: "list_all is_float64 (PyInt 100 # ?ds)"
    by simp
  have ex: "list_all exact_int (PyInt 100 # ?ds @ ?bs)"
    by simp
  have r: "round64 (181 / 2) = 181 / 2"
    by code_simp
  have run0: "py_simulate [PyInt (- 10), PyFloat (1 / 2)] (PyInt 100) (PyInt 0)
     = Some ([PyInt 90, PyFloat (181 / 2)], [PyInt 90, PyFloat (181 / 2)])"
    by (simp add: py_eval round64_numeral round64_neg_numeral round64_half r)
  have fl0: "list_all is_float64 [PyInt 100, PyInt (- 10), PyFloat (1 / 2)]"
    by (simp add: round64_half)
  from py_zero_savings_roundtrip [OF run fl] ex
  have "map py_real ?sbs = map py_real ?bs" by simp
  moreover from py_zero_savings_roundtrip [OF run0 fl0]
  have "[PyInt 90, PyFloat (181 / 2)] = [PyInt 90, PyFloat (181 / 2)]" by simp
  ultimately show ?thesis using run fl ex run0 by simp
qed

subsection \<open>The savings-adjusted balance and the balance\<close>

lemma py_sub_one:
  assumes "py_sub (PyInt 1) sp = Some q" "0 \<le> py_real sp" "py_real sp \<le> 1"
  shows "0 \<le> flv q \<and> flv q \<le> 1 \<and> (\<forall>k. q = PyInt k \<longrightarrow> 0 \<le> k \<and> k \<le> 1)"
proof (cases sp)
  case (PyInt k)
  with assms show ?thesis
    by (auto simp: round64_nonneg round64_le_1)
next
  case (PyFloat p)
  with assms have "q = PyFloat (round64 (1 - p))"
    by (auto dest: float_op_Some)
  with assms PyFloat show ?thesis
    by (simp add: round64_nonneg round64_le_1)
qed

lemma py_contrib_le:
  assumes inc: "py_contrib sp d = Some inc"
    and sp: "0 \<le> py_real sp" "py_real sp \<le> 1"
    and d: "is_float64 d" "exact_int d"
  shows "flv inc \<le> flv d \<and> py_real inc \<le> py_real d \<and> (is_int inc \<longrightarrow> is_int d)"
proof (cases "py_less d (PyInt 0)")
  case True
  with inc show ?thesis by (simp add: py_contrib_def)
next
  case False
  then have d0: "0 \<le> py_real d" by (simp add: py_less_def)
  from False inc obtain q where q: "py_sub (PyInt 1) sp = Some q" and m: "py_mul d q = Some inc"
    by (auto simp: py_contrib_def bind_eq_Some_conv)
  from py_sub_one [OF q sp] have q01: "0 \<le> flv q" "flv q \<le> 1"
    and qi: "\<And>k. q = PyInt k \<Longrightarrow> 0 \<le> k \<and> k \<le> 1" by blast+
  have fd: "flv d = py_real d" using d(2) by (rule flv_exact)
  from py_mul_cases [OF m] show ?thesis
  proof (elim disjE exE conjE)
    fix n k
    assume e: "d = PyInt n" "q = PyInt k" "inc = PyInt (n * k)"
    from qi [OF e(2)] have "k = 0 \<or> k = 1" by auto
    moreover from d0 e(1) have "0 \<le> n" by simp
    ultimately have "n * k \<le> n" by auto
    then have "real_of_int (n * k) \<le> real_of_int n" by (simp only: of_int_le_iff)
    with e show ?thesis by (simp add: round64_mono)
  next
    assume ni: "\<not> (is_int d \<and> is_int q)" and e: "inc = PyFloat (round64 (flv d * flv q))"
    from d0 fd q01 have "flv d * flv q \<le> flv d"
      by (simp add: mult_left_le)
    then have "round64 (flv d * flv q) \<le> round64 (flv d)" by (rule round64_mono)
    also have "round64 (flv d) = flv d" using d(2) d(1) by (rule round64_flv)
    finally show ?thesis using e fd by simp
  qed
qed

lemma flv_le:
  assumes "py_real csb \<le> py_real cb" "is_int csb \<longrightarrow> is_int cb" "exact_int cb"
  shows "flv csb \<le> flv cb"
proof (cases csb)
  case (PyInt s)
  with assms(2) obtain b where "cb = PyInt b" by (cases cb) auto
  with PyInt assms(1) show ?thesis by (simp add: round64_mono)
next
  case (PyFloat s)
  with assms(1) flv_exact [OF assms(3)] show ?thesis by simp
qed

lemma py_step_le:
  assumes cb': "py_add cb d = Some cb'"
    and inc: "py_contrib sp d = Some inc"
    and csb': "py_add csb inc = Some csb'"
    and sp: "0 \<le> py_real sp" "py_real sp \<le> 1"
    and d: "is_float64 d" "exact_int d"
    and inv: "py_real csb \<le> py_real cb" "is_int csb \<longrightarrow> is_int cb" "exact_int cb"
    and ex: "exact_int cb'"
  shows "py_real csb' \<le> py_real cb' \<and> (is_int csb' \<longrightarrow> is_int cb')"
proof -
  from py_contrib_le [OF inc sp d]
  have i: "flv inc \<le> flv d" "py_real inc \<le> py_real d" "is_int inc \<longrightarrow> is_int d" by blast+
  have c: "flv csb \<le> flv cb" using inv by (rule flv_le)
  have fcb': "flv cb' = py_real cb'" using ex by (rule flv_exact)
  have sum: "flv csb + flv inc \<le> flv cb + flv d" using c i(1) by simp
  from py_add_cases [OF csb'] show ?thesis
  proof (elim disjE exE conjE)
    fix s j
    assume e: "csb = PyInt s" "inc = PyInt j" "csb' = PyInt (s + j)"
    with inv(2) i(3) obtain b n where bn: "cb = PyInt b" "d = PyInt n"
      by (cases cb; cases d) auto
    with cb' have "cb' = PyInt (b + n)" by simp
    moreover from e bn inv(1) i(2) have "s + j \<le> b + n" by simp
    then have "real_of_int (s + j) \<le> real_of_int (b + n)" by (simp only: of_int_le_iff)
    ultimately show ?thesis using e by simp
  next
    assume ni: "\<not> (is_int csb \<and> is_int inc)"
      and e: "csb' = PyFloat (round64 (flv csb + flv inc))"
    from py_add_cases [OF cb'] show ?thesis
    proof (elim disjE exE conjE)
      fix b n
      assume f: "cb = PyInt b" "d = PyInt n" "cb' = PyInt (b + n)"
      from inv(3) d(2) f have "flv cb + flv d = py_real cb'"
        by (simp add: round64_int_exact)
      with sum have "round64 (flv csb + flv inc) \<le> round64 (py_real cb')"
        by (simp add: round64_mono)
      also from ex f have "round64 (py_real cb') = py_real cb'"
        using round64_int_exact [of "b + n"] by simp
      finally show ?thesis using e by simp
    next
      assume "cb' = PyFloat (round64 (flv cb + flv d))"
      with sum e show ?thesis by (simp add: round64_mono)
    qed
  qed
qed

lemma py_run_le:
  assumes "py_run sp cb csb ds = Some ps"
    and "0 \<le> py_real sp" "py_real sp \<le> 1"
    and "list_all is_float64 ds" "list_all exact_int ds"
    and "list_all exact_int (map fst ps)"
    and "py_real csb \<le> py_real cb" "is_int csb \<longrightarrow> is_int cb" "exact_int cb"
  shows "list_all (\<lambda>(b, s). py_real s \<le> py_real b) ps"
  using assms
proof (induction ds arbitrary: cb csb ps)
  case Nil
  then show ?case by simp
next
  case (Cons d ds)
  from Cons.prems(1) obtain cb' inc csb' rest where
    s: "py_add cb d = Some cb'" "py_contrib sp d = Some inc" "py_add csb inc = Some csb'"
      "py_run sp cb' csb' ds = Some rest" "ps = (cb', csb') # rest"
    by (auto simp: bind_eq_Some_conv)
  from Cons.prems s(5) have ex: "exact_int cb'" and exr: "list_all exact_int (map fst rest)"
    and d: "is_float64 d" "exact_int d" and ds: "list_all is_float64 ds" "list_all exact_int ds"
    by simp_all
  from py_step_le [OF s(1) s(2) s(3) Cons.prems(2,3) d Cons.prems(7,8,9) ex]
  have st: "py_real csb' \<le> py_real cb'" "is_int csb' \<longrightarrow> is_int cb'" by blast+
  from Cons.IH [OF s(4) Cons.prems(2,3) ds exr st ex]
  have "list_all (\<lambda>(b, s). py_real s \<le> py_real b) rest" .
  with st s(5) show ?case by simp
qed

text \<open>
  Claim C10, as stated, fails in the code's arithmetic. With the float 0.0 as save
  proportion, a start amount of 0 and the single difference \<open>2 ^ 53 + 3\<close>, the
  balance is the int 9007199254740995 and the savings-adjusted balance is the float
  9007199254740996.0, which is greater: converting the difference to a float rounds up.
\<close>

theorem saveBalance_le_balance_counterexample:
  "py_simulate [PyInt 9007199254740995] (PyInt 0) (PyFloat 0)
     = Some ([PyInt 9007199254740995], [PyFloat 9007199254740996]) \<and>
   0 \<le> py_real (PyFloat 0) \<and> py_real (PyFloat 0) \<le> 1 \<and>
   py_real (PyInt 9007199254740995) < py_real (PyFloat 9007199254740996)"
proof -
  have r: "round64 9007199254740995 = 9007199254740996"
    by code_simp
  have e: "round64 9007199254740996 = 9007199254740996"
    by code_simp
  show ?thesis
    by (simp add: py_eval r e)
qed

text \<open>
  Claim C10, amended. For a run that stays within the finite numbers, with a save
  proportion between 0 and 1, and provided that every int among the start amount, the
  differences and the balances has a magnitude of at most \<open>2 ^ 53\<close>: both series have
  one entry per difference, the savings-adjusted balance is at most the balance at every
  index, and the contribution of every day to the savings-adjusted balance is at most the
  day's difference.
\<close>

theorem py_saveBalance_le_balance:
  assumes "py_simulate ds startAmount saveProportion = Some (bs, sbs)"
    and "0 \<le> py_real saveProportion" "py_real saveProportion \<le> 1"
    and "list_all is_float64 (startAmount # ds)"
    and "list_all exact_int (startAmount # ds @ bs)"
  shows "length sbs = length ds \<and> length bs = length ds \<and>
         (\<forall>i<length ds. py_real (sbs ! i) \<le> py_real (bs ! i)) \<and>
         (\<forall>d\<in>set ds. \<forall>inc. py_contrib saveProportion d = Some inc \<longrightarrow> py_real inc \<le> py_real d)"
proof -
  from py_simulate_run [OF assms(1)] obtain ps where
    ps: "py_run saveProportion startAmount startAmount ds = Some ps"
      "bs = map fst ps" "sbs = map snd ps" by blast
  from assms(4,5) ps(2) have h: "list_all is_float64 ds" "list_all exact_int ds"
    "list_all exact_int (map fst ps)" "exact_int startAmount" by simp_all
  from py_run_le [OF ps(1) assms(2,3) h(1,2,3) order_refl _ h(4)]
  have le: "list_all (\<lambda>(b, s). py_real s \<le> py_real b) ps" by simp
  have len: "length ps = length ds"
    using ps(1) by (rule py_run_length)
  have "py_real (sbs ! i) \<le> py_real (bs ! i)" if "i < length ds" for i
  proof -
    from that len have i: "i < length ps" by simp
    with le have "(\<lambda>(b, s). py_real s \<le> py_real b) (ps ! i)"
      by (simp add: list_all_length)
    with i ps(2,3) show ?thesis by (simp add: case_prod_beta)
  qed
  moreover have "py_real inc \<le> py_real d"
    if "d \<in> set ds" "py_contrib saveProportion d = Some inc" for d inc
  proof -
    from that(1) h(1,2) have "is_float64 d" "exact_int d" by (simp_all add: list_all_iff)
    from py_contrib_le [OF that(2) assms(2,3) this] show ?thesis by simp
  qed
  ultimately show ?thesis using len ps(2,3) by simp
qed

theorem py_saveBalance_le_balance_witness:
  "py_simulate [PyInt (- 10), PyInt 50, PyInt (- 5)] (PyInt 100) (PyFloat (1 / 2))
     = Some ([PyInt 90, PyInt 140, PyInt 135], [PyInt 90, PyFloat 115, PyFloat 110]) \<and>
   0 \<le> py_real (PyFloat (1 / 2)) \<and> py_real (PyFloat (1 / 2)) \<le> 1 \<and>
   list_all is_float64 [PyInt 100, PyInt (- 10), PyInt 50, PyInt (- 5)] \<and>
   list_all exact_int ([PyInt 100, PyInt (- 10), PyInt 50, PyInt (- 5)]
                       @ [PyInt 90, PyInt 140, PyInt 135]) \<and>
   py_real ([PyInt 90, PyFloat 115, PyFloat 110] ! 1) \<le> py_real ([PyInt 90, PyInt 140, PyInt 135] ! 1) \<and>
   py_contrib (PyFloat (1 / 2)) (PyInt 50) = Some (PyFloat 25) \<and>
   py_real (PyFloat 25) \<le> py_real (PyInt 50)"
proof -
  let ?ds = "[PyInt (- 10), PyInt 50, PyInt (- 5)]"
  let ?bs = "[PyInt 90, PyInt 140, PyInt 135]"
  let ?sbs = "[PyInt 90, PyFloat 115, PyFloat 110]"
  have run: "py_simulate ?ds (PyInt 100) (PyFloat (1 / 2)) = Some (?bs, ?sbs)"
    by (simp add: py_eval round64_numeral round64_neg_numeral round64_half)
  have sp: "0 \<le> py_real (PyFloat (1 / 2))" "py_real (PyFloat (1 / 2)) \<le> 1"
    by simp_all
  have fl: "list_all is_float64 (PyInt 100 # ?ds)"
    by simp
  have ex: "list_all exact_int (PyInt 100 # ?ds @ ?bs)"
    by simp
  have c: "py_contrib (PyFloat (1 / 2)) (PyInt 50) = Some (PyFloat 25)"
    by (simp add: py_eval round64_numeral round64_half)
  note inst = py_saveBalance_le_balance [OF run sp fl ex]
  from inst have "\<forall>i<length ?ds. py_real (?sbs ! i) \<le> py_real (?bs ! i)" by blast
  then have "1 < length ?ds \<longrightarrow> py_real (?sbs ! 1) \<le> py_real (?bs ! 1)" by (rule spec)
  moreover from inst have "\<forall>d\<in>set ?ds. \<forall>inc. py_contrib (PyFloat (1 / 2)) d = Some inc
      \<longrightarrow> py_real inc \<le> py_real d" by blast
  then have "py_real (PyFloat 25) \<le> py_real (PyInt 50)" using c by simp
  ultimately show ?thesis using run fl ex c by simp
qed

section \<open>Transactions on a day\<close>

text \<open>
  Claim C5. The amount of a transaction for a day is its amount when it fires on that
  day and 0 otherwise. It fires exactly when \<open>when\<close> is a datetime with the calendar
  date of the day, or an rrule with an occurrence on the calendar date of the day.
\<close>

theorem transaction_amount_for_day:
  "getAmountForDay t d = (if doesTransactForDay t d then amount t else 0) \<and>
   (doesTransactForDay t d \<longleftrightarrow>
      (\<exists>dt. when t = PyDatetime dt \<and> date dt = date d) \<or>
      (\<exists>occ. when t = PyRrule occ \<and> date d \<in> set (map date occ)))"
  by (cases "when t") (simp_all add: getAmountForDay_def doesTransactForDay_def)

lemma str_neg: "i < 0 \<Longrightarrow> drop (Suc 0) (str i) = str (- i)"
  by (simp add: str_def)

text \<open>
  Claim C6. With a day on which the transaction does not fire the formatted name is
  empty. Otherwise it is the name followed by a colon and a space when a name is set
  (the code tests the truth value of the name, so neither \<open>None\<close> nor the empty
  string counts as a name), then a minus sign, a dollar sign and the string of the
  absolute value for a negative amount, or a dollar sign and the string of the amount.
  An unnamed transaction of 20 gives \<open>$20\<close>, one of -20 named Wowe gives
  \<open>Wowe: -$20\<close>.
\<close>

theorem getFormattedName_format:
  "getFormattedName t day =
     (if day \<noteq> None \<and> \<not> doesTransactForDay t (the day) then []
      else (case name t of
              None \<Rightarrow> []
            | Some n \<Rightarrow> if n = [] then [] else n @ '': '')
           @ (if amount t < 0 then ''-$'' @ str \<bar>amount t\<bar> else ''$'' @ str (amount t))) \<and>
   getFormattedName \<lparr>when = PyDatetime day0, amount = 20, name = None\<rparr> None = ''$20'' \<and>
   getFormattedName \<lparr>when = PyDatetime day0, amount = - 20, name = Some ''Wowe''\<rparr> None
     = ''Wowe: -$20''"
proof -
  have "getFormattedName \<lparr>when = PyDatetime day0, amount = 20, name = None\<rparr> None = ''$20''"
    by (simp add: getFormattedName_def truthy_name_def str_def str_nat.simps digit_char_def)
  moreover have "getFormattedName \<lparr>when = PyDatetime day0, amount = - 20, name = Some ''Wowe''\<rparr> None
      = ''Wowe: -$20''"
    by (simp add: getFormattedName_def truthy_name_def str_def str_nat.simps digit_char_def)
  moreover have "getFormattedName t day =
     (if day \<noteq> None \<and> \<not> doesTransactForDay t (the day) then []
      else (case name t of
              None \<Rightarrow> []
            | Some n \<Rightarrow> if n = [] then [] else n @ '': '')
           @ (if amount t < 0 then ''-$'' @ str \<bar>amount t\<bar> else ''$'' @ str (amount t)))"
    by (simp add: getFormattedName_def truthy_name_def str_neg split: option.split)
  ultimately show ?thesis by blast
qed

text \<open>A name that is the empty string is formatted like no name.\<close>

lemma getFormattedName_empty_name:
  "getFormattedName \<lparr>when = PyDatetime day0, amount = 20, name = Some []\<rparr> None = ''$20''"
  by (simp add: getFormattedName_def truthy_name_def str_def str_nat.simps digit_char_def)

text \<open>
  The assertions of the program's own \<open>test\<close> about formatting with a day: the
  transaction of the 20th is formatted on the 20th and gives the empty string on the 21st.
\<close>

lemma getFormattedName_test:
  "getFormattedName \<lparr>when = PyDatetime \<lparr>ordinal = 734857, micros = 0\<rparr>, amount = 20, name = None\<rparr>
     (Some \<lparr>ordinal = 734857, micros = 0\<rparr>) = ''$20'' \<and>
   getFormattedName \<lparr>when = PyDatetime \<lparr>ordinal = 734857, micros = 0\<rparr>, amount = 20, name = None\<rparr>
     (Some \<lparr>ordinal = 734858, micros = 0\<rparr>) = []"
  by (simp add: getFormattedName_def doesTransactForDay_def date_def truthy_name_def str_def
      str_nat.simps digit_char_def)

text \<open>
  Claim C7. Construction fails exactly when \<open>when\<close> is \<open>None\<close>, \<open>amount\<close> is
  \<open>None\<close>, or \<open>when\<close> is neither a datetime nor an rrule. When it succeeds the
  object holds the given \<open>when\<close>, \<open>amount\<close> and \<open>name\<close>.
\<close>

theorem Transaction_construction:
  "(isl (Transaction w a n) \<longleftrightarrow>
      w = PyNone \<or> a = None \<or> \<not> ((\<exists>dt. w = PyDatetime dt) \<or> (\<exists>occ. w = PyRrule occ))) \<and>
   (\<forall>t. Transaction w a n = Inr t \<longrightarrow> when t = w \<and> Some (amount t) = a \<and> name t = n)"
  by (cases w) (auto simp: Transaction_def)

theorem Transaction_construction_witness:
  "Transaction (PyDatetime \<lparr>ordinal = 734857, micros = 0\<rparr>) (Some 0) None
     = Inr \<lparr>when = PyDatetime \<lparr>ordinal = 734857, micros = 0\<rparr>, amount = 0, name = None\<rparr> \<and>
   \<not> isl (Transaction (PyDatetime \<lparr>ordinal = 734857, micros = 0\<rparr>) (Some 0) None) \<and>
   isl (Transaction (PyOther ''2012-12-20'') (Some 20) None) \<and>
   isl (Transaction (PyRrule []) None None)"
proof -
  let ?w = "PyDatetime \<lparr>ordinal = 734857, micros = 0\<rparr>"
  have ok: "Transaction ?w (Some 0) None = Inr \<lparr>when = ?w, amount = 0, name = None\<rparr>"
    by (simp add: Transaction_def)
  from Transaction_construction [of ?w "Some 0" None]
  have "\<not> isl (Transaction ?w (Some 0) None)"
    by simp
  moreover from Transaction_construction [of "PyOther ''2012-12-20''" "Some 20" None]
  have "isl (Transaction (PyOther ''2012-12-20'') (Some 20) None)" by simp
  moreover from Transaction_construction [of "PyRrule []" None None]
  have "isl (Transaction (PyRrule []) None None)" by simp
  ultimately show ?thesis using ok by simp
qed

section \<open>The projected differences\<close>

lemma length_daily_until:
  "length (daily_until cur until) =
     nat (ordinal until - ordinal cur + (if micros cur \<le> micros until then 1 else 0))"
proof (induction cur until rule: daily_until.induct)
  case (1 cur until)
  show ?case
  proof (cases "dt_less until cur")
    case True
    then show ?thesis
      by (subst daily_until.simps) (auto simp: dt_less_def)
  next
    case False
    from "1.IH" [OF False] False show ?thesis
      by (subst daily_until.simps) (auto simp: dt_less_def add_day_def)
  qed
qed

lemma length_rrule_DAILY:
  "length (rrule_DAILY f t) =
     nat (date t - date f + (if micros f - micros f mod 1000000 \<le> micros t then 1 else 0))"
  by (simp add: rrule_DAILY_def length_daily_until date_def)

lemma diffs_foldl:
  "length (diffs (foldl projectDiffs_body st days)) = length (diffs st) + length days"
  by (induction days arbitrary: st) (simp_all add: projectDiffs_body_def Let_def)

lemma labels_foldl:
  "length (labels (foldl projectDiffs_body st days)) = length (labels st) + length days"
  by (induction days arbitrary: st) (simp_all add: projectDiffs_body_def Let_def)

lemma projectDiffs_lengths:
  "length (fst (projectDiffs ts f t)) = length (rrule_DAILY f t) \<and>
   length (snd (projectDiffs ts f t)) = length (rrule_DAILY f t)"
  by (simp add: projectDiffs_def projectDiffs_loop_def Let_def diffs_foldl labels_foldl)

text \<open>
  From 18:00 on 1 January 2020 to 09:00 on 2 January 2020 the daily recurrence has one
  occurrence: the second one, at 18:00 on 2 January, is later than the end.
\<close>

lemma rrule_DAILY_drops:
  "rrule_DAILY \<lparr>ordinal = 737425, micros = 64800000000\<rparr> \<lparr>ordinal = 737426, micros = 32400000000\<rparr>
     = [\<lparr>ordinal = 737425, micros = 64800000000\<rparr>]"
  unfolding rrule_DAILY_def
  apply (subst daily_until.simps)
  apply (subst daily_until.simps)
  apply (simp add: dt_less_def add_day_def)
  done

text \<open>
  Claim C3 says that the differences and labels have one entry for every calendar day
  from \<open>fromDate\<close> to \<open>toDate\<close>, whatever the times of day of the bounds, and the
  docstring of \<open>projectDiffs\<close> promises a projection for all dates in \<open>fromDate\<close> to
  \<open>toDate\<close>. The code does not do that. From 18:00 on 1 January 2020 to 09:00 on
  2 January 2020 there are two calendar days, and a transaction at 08:00 on 2 January
  fires on the date of \<open>toDate\<close>; the result has a single entry, for 1 January, and the
  transaction is never projected.
\<close>

theorem projectDiffs_drops_last_day:
  "projectDiffs
     [\<lparr>when = PyDatetime \<lparr>ordinal = 737426, micros = 28800000000\<rparr>, amount = 20, name = None\<rparr>]
     \<lparr>ordinal = 737425, micros = 64800000000\<rparr> \<lparr>ordinal = 737426, micros = 32400000000\<rparr>
     = ([0], [[]]) \<and>
   numberOfDaysInclusive
     \<lparr>ordinal = 737425, micros = 64800000000\<rparr> \<lparr>ordinal = 737426, micros = 32400000000\<rparr> = 2 \<and>
   doesTransactForDay
     \<lparr>when = PyDatetime \<lparr>ordinal = 737426, micros = 28800000000\<rparr>, amount = 20, name = None\<rparr>
     \<lparr>ordinal = 737426, micros = 32400000000\<rparr>"
  by (simp add: projectDiffs_def projectDiffs_loop_def projectDiffs_body_def rrule_DAILY_drops
      getAmountForDay_def getFormattedName_def doesTransactForDay_def date_def
      numberOfDaysInclusive_def Let_def)

end
